theory Spec2Isabelle
  imports Main "HOL-Library.Multiset"
begin

section \<open>Python values used by \<open>task_2.py\<close>\<close>

text \<open>
  A Python \<open>str\<close> is a sequence of Unicode code points, so a string is a list of
  natural numbers. \<open>str\<close> turns an Isabelle literal into such a list.  Python's
  unbounded \<open>int\<close> is \<open>int\<close>.
\<close>

type_synonym codepoint = nat
type_synonym pystr = "codepoint list"

definition str :: "string \<Rightarrow> pystr" where
  "str s = map of_char s"

text \<open>
  \<open>string.punctuation\<close>, the 32 ASCII characters
  \<^verbatim>\<open>!"#$%&'()*+,-./:;<=>?@[\]^_`{|}~\<close>, in that order.
\<close>

definition punctuation :: pystr where
  "punctuation =
     [0x21, 0x22, 0x23, 0x24, 0x25, 0x26, 0x27, 0x28, 0x29, 0x2A, 0x2B, 0x2C, 0x2D, 0x2E, 0x2F,
      0x3A, 0x3B, 0x3C, 0x3D, 0x3E, 0x3F, 0x40,
      0x5B, 0x5C, 0x5D, 0x5E, 0x5F, 0x60,
      0x7B, 0x7C, 0x7D, 0x7E]"

text \<open>
  The code points for which \<open>str.isspace\<close> holds; \<open>str.split()\<close> without
  arguments separates at runs of these.
\<close>

definition whitespace :: pystr where
  "whitespace =
     [0x09, 0x0A, 0x0B, 0x0C, 0x0D, 0x1C, 0x1D, 0x1E, 0x1F, 0x20, 0x85, 0xA0, 0x1680,
      0x2000, 0x2001, 0x2002, 0x2003, 0x2004, 0x2005, 0x2006, 0x2007, 0x2008, 0x2009, 0x200A,
      0x2028, 0x2029, 0x202F, 0x205F, 0x3000]"

definition isspace :: "codepoint \<Rightarrow> bool" where
  "isspace c \<longleftrightarrow> c \<in> set whitespace"

text \<open>
  \<open>text.split()\<close>: leading whitespace is skipped, then a maximal run of
  non-whitespace code points is one word, and so on to the end of the text.
\<close>

function split :: "pystr \<Rightarrow> pystr list" where
  "split [] = []"
| "split (c # cs) =
     (if isspace c then split cs
      else (c # takeWhile (\<lambda>x. \<not> isspace x) cs) # split (dropWhile (\<lambda>x. \<not> isspace x) cs))"
  by pat_completeness auto
termination
  by (relation "measure length") (auto simp: less_Suc_eq_le length_dropWhile_le)

text \<open>
  A \<open>dict\<close> keeps its keys in insertion order: it is an association list whose keys
  are pairwise distinct.  \<open>d[k] = v\<close> replaces the value of a key that is present, in
  place, and appends the entry otherwise.  \<open>dict(pairs)\<close> stores the pairs from left
  to right.
\<close>

type_synonym ('k, 'v) dict = "('k \<times> 'v) list"

fun setitem :: "('k, 'v) dict \<Rightarrow> 'k \<Rightarrow> 'v \<Rightarrow> ('k, 'v) dict" where
  "setitem [] k v = [(k, v)]"
| "setitem ((k', v') # d) k v =
     (if k' = k then (k', v) # d else (k', v') # setitem d k v)"

definition dict :: "('k \<times> 'v) list \<Rightarrow> ('k, 'v) dict" where
  "dict pairs = foldl (\<lambda>d (k, v). setitem d k v) [] pairs"

definition keys :: "('k, 'v) dict \<Rightarrow> 'k list" where
  "keys d = map fst d"

definition values_of :: "('k, 'v) dict \<Rightarrow> 'v list" where
  "values_of d = map snd d"

text \<open>
  \<open>shuffled[key]\<close> on a \<open>defaultdict(list)\<close>: the stored list, or a fresh empty
  list (which is then stored under the key) when the key is missing.
\<close>

definition getitem_default :: "('k, 'v list) dict \<Rightarrow> 'k \<Rightarrow> 'v list" where
  "getitem_default d k = (case map_of d k of None \<Rightarrow> [] | Some vs \<Rightarrow> vs)"

section \<open>The pipeline of \<open>task_2.py\<close>\<close>

definition remove_punctuation :: "pystr \<Rightarrow> pystr" where
  "remove_punctuation text = filter (\<lambda>c. c \<notin> set punctuation) text"

definition map_function :: "pystr \<Rightarrow> pystr \<times> int" where
  "map_function word = (word, 1)"

text \<open>The body of the loop of \<open>shuffle_function\<close>: \<open>shuffled[key].append(value)\<close>.\<close>

definition shuffle_step :: "('k, 'v list) dict \<Rightarrow> 'k \<times> 'v \<Rightarrow> ('k, 'v list) dict" where
  "shuffle_step shuffled = (\<lambda>(key, value). setitem shuffled key (getitem_default shuffled key @ [value]))"

definition shuffle_function :: "('k \<times> 'v) list \<Rightarrow> ('k \<times> 'v list) list" where
  "shuffle_function mapped_values = foldl shuffle_step [] mapped_values"

definition reduce_function :: "'k \<times> int list \<Rightarrow> 'k \<times> int" where
  "reduce_function = (\<lambda>(key, values). (key, sum_list values))"

text \<open>
  The value of \<open>words\<close> after the optional filter of \<open>map_reduce\<close>.  The test
  \<open>if search_words:\<close> is Python truthiness: \<open>None\<close> and the empty list are both false.
\<close>

definition filtered_words :: "pystr \<Rightarrow> pystr list option \<Rightarrow> pystr list" where
  "filtered_words text search_words =
     (let text = remove_punctuation text;
          words = split text
      in case search_words of
           None \<Rightarrow> words
         | Some sw \<Rightarrow> if sw \<noteq> [] then [word \<leftarrow> words. word \<in> set sw] else words)"

text \<open>
  \<open>executor.map\<close> returns the results in the order of its input, so both parallel
  stages are \<open>map\<close>.
\<close>

definition map_reduce :: "pystr \<Rightarrow> pystr list option \<Rightarrow> (pystr, int) dict" where
  "map_reduce text search_words =
     (let words = filtered_words text search_words;
          mapped_values = map map_function words;
          shuffled_values = shuffle_function mapped_values;
          reduced_values = map reduce_function shuffled_values
      in dict reduced_values)"

section \<open>The selection of the top words in \<open>visualize_top_words\<close>\<close>

text \<open>
  \<open>sorted(items, key=lambda x: x[1], reverse=True)\<close> is a stable sort by descending
  count.  \<open>xs[:k]\<close> with a negative \<open>k\<close> leaves out the last \<open>-k\<close> elements.
\<close>

definition sorted_frequencies :: "('k, int) dict \<Rightarrow> ('k \<times> int) list" where
  "sorted_frequencies word_frequencies = sort_key (\<lambda>x. - snd x) word_frequencies"

definition slice_to :: "'a list \<Rightarrow> int \<Rightarrow> 'a list" where
  "slice_to xs k = (if k < 0 then take (length xs - nat (- k)) xs else take (nat k) xs)"

definition top_entries :: "('k, int) dict \<Rightarrow> int \<Rightarrow> ('k \<times> int) list" where
  "top_entries word_frequencies num_top_words =
     slice_to (sorted_frequencies word_frequencies) num_top_words"

definition top_words :: "('k, int) dict \<Rightarrow> int \<Rightarrow> 'k list" where
  "top_words word_frequencies num_top_words =
     [word. (word, frequency) \<leftarrow> top_entries word_frequencies num_top_words]"

definition top_frequencies :: "('k, int) dict \<Rightarrow> int \<Rightarrow> int list" where
  "top_frequencies word_frequencies num_top_words =
     [frequency. (word, frequency) \<leftarrow> top_entries word_frequencies num_top_words]"

section \<open>Dictionaries\<close>

lemma map_of_setitem: "map_of (setitem d k v) = (map_of d)(k \<mapsto> v)"
  by (induction d k v rule: setitem.induct) auto

lemma setitem_fresh: "k \<notin> fst ` set d \<Longrightarrow> setitem d k v = d @ [(k, v)]"
  by (induction d k v rule: setitem.induct) auto

lemma keys_setitem_present: "k \<in> fst ` set d \<Longrightarrow> map fst (setitem d k v) = map fst d"
  by (induction d k v rule: setitem.induct) auto

lemma distinct_setitem: "distinct (map fst d) \<Longrightarrow> distinct (map fst (setitem d k v))"
proof (cases "k \<in> fst ` set d")
  case True
  assume "distinct (map fst d)"
  with True show ?thesis by (simp add: keys_setitem_present)
next
  case False
  assume "distinct (map fst d)"
  with False show ?thesis by (simp add: setitem_fresh)
qed

lemma foldl_setitem_distinct:
  "distinct (map fst (acc @ ps)) \<Longrightarrow> foldl (\<lambda>d (k, v). setitem d k v) acc ps = acc @ ps"
proof (induction ps arbitrary: acc)
  case Nil
  show ?case by simp
next
  case (Cons p ps)
  obtain k v where p: "p = (k, v)" by (cases p)
  from Cons.prems p have fresh: "k \<notin> fst ` set acc" by auto
  from Cons.prems p have "distinct (map fst ((acc @ [(k, v)]) @ ps))" by simp
  then have "foldl (\<lambda>d (k, v). setitem d k v) (acc @ [(k, v)]) ps = (acc @ [(k, v)]) @ ps"
    by (rule Cons.IH)
  with fresh p show ?case by (simp add: setitem_fresh)
qed

lemma dict_distinct: "distinct (map fst ps) \<Longrightarrow> dict ps = ps"
  using foldl_setitem_distinct [of "[]" ps] by (simp add: dict_def)

section \<open>The shuffle stage\<close>

lemma shuffle_function_snoc:
  "shuffle_function (xs @ [x]) = shuffle_step (shuffle_function xs) x"
  by (simp add: shuffle_function_def)

lemma distinct_shuffle_function: "distinct (map fst (shuffle_function xs))"
proof (induction xs rule: rev_induct)
  case Nil
  show ?case by (simp add: shuffle_function_def)
next
  case (snoc x xs)
  then show ?case
    by (cases x) (simp add: shuffle_function_snoc shuffle_step_def distinct_setitem)
qed

lemma map_of_shuffle_function:
  "map_of (shuffle_function xs) k =
     (if k \<in> fst ` set xs then Some (map snd (filter (\<lambda>p. fst p = k) xs)) else None)"
proof (induction xs rule: rev_induct)
  case Nil
  show ?case by (simp add: shuffle_function_def)
next
  case (snoc x xs)
  obtain k' v where x: "x = (k', v)" by (cases x)
  show ?case
    using snoc.IH
    by (auto simp: x shuffle_function_snoc shuffle_step_def map_of_setitem getitem_default_def image_iff filter_empty_conv)
qed

lemma keys_shuffle_function: "set (map fst (shuffle_function xs)) = fst ` set xs"
proof -
  have "dom (map_of (shuffle_function xs)) = fst ` set xs"
    by (auto simp: dom_def map_of_shuffle_function)
  then show ?thesis by (simp add: dom_map_of_conv_image_fst)
qed

lemma grouped_total_step:
  "sum_list (map (\<lambda>e. sum_list (snd e)) (shuffle_step d (k, v))) =
     sum_list (map (\<lambda>e. sum_list (snd e)) d) + (v::int)"
proof (induction d)
  case Nil
  show ?case by (simp add: shuffle_step_def getitem_default_def)
next
  case (Cons e d)
  obtain k' vs where e: "e = (k', vs)" by (cases e)
  from Cons show ?case
    by (simp add: e shuffle_step_def getitem_default_def)
qed

lemma grouped_total_shuffle:
  "sum_list (map (\<lambda>e. sum_list (snd e)) (shuffle_function xs)) =
     sum_list (map snd (xs :: ('k \<times> int) list))"
proof (induction xs rule: rev_induct)
  case Nil
  show ?case by (simp add: shuffle_function_def)
next
  case (snoc x xs)
  then show ?case
    by (cases x) (simp add: shuffle_function_snoc grouped_total_step)
qed

section \<open>Tokenization\<close>

lemma split_nonempty: "w \<in> set (split s) \<Longrightarrow> w \<noteq> []"
  by (induction s rule: split.induct) (auto split: if_splits)

lemma split_subset: "w \<in> set (split s) \<Longrightarrow> set w \<subseteq> set s"
proof (induction s arbitrary: w rule: split.induct)
  case 1
  then show ?case by simp
next
  case (2 c cs)
  show ?case
  proof (cases "isspace c")
    case True
    with 2 show ?thesis by auto
  next
    case False
    with "2.prems" consider
        "w = c # takeWhile (\<lambda>x. \<not> isspace x) cs"
      | "w \<in> set (split (dropWhile (\<lambda>x. \<not> isspace x) cs))"
      by auto
    then show ?thesis
    proof cases
      case 1
      then show ?thesis by (auto dest: set_takeWhileD)
    next
      case 2
      with False "2.IH"(2) have "set w \<subseteq> set (dropWhile (\<lambda>x. \<not> isspace x) cs)" by blast
      then show ?thesis by (auto dest: set_dropWhileD)
    qed
  qed
qed

lemma remove_punctuation_free: "set (remove_punctuation text) \<inter> set punctuation = {}"
  by (auto simp: remove_punctuation_def)

lemma filtered_words_subset:
  "set (filtered_words text search_words) \<subseteq> set (split (remove_punctuation text))"
  by (auto simp: filtered_words_def Let_def split: option.splits)

lemma filtered_words_nonempty: "w \<in> set (filtered_words text search_words) \<Longrightarrow> w \<noteq> []"
  using filtered_words_subset split_nonempty by blast

lemma filtered_words_punctuation_free:
  "w \<in> set (filtered_words text search_words) \<Longrightarrow> set w \<inter> set punctuation = {}"
proof -
  assume "w \<in> set (filtered_words text search_words)"
  then have "w \<in> set (split (remove_punctuation text))"
    using filtered_words_subset by blast
  then have "set w \<subseteq> set (remove_punctuation text)" by (rule split_subset)
  with remove_punctuation_free show ?thesis by blast
qed

section \<open>The reduce stage and the whole pipeline\<close>

lemma fst_reduce: "fst (reduce_function e) = fst e"
  by (cases e) (simp add: reduce_function_def)

lemma snd_reduce: "snd (reduce_function e) = sum_list (snd e)"
  by (cases e) (simp add: reduce_function_def)

lemma keys_reduce: "map fst (map reduce_function gs) = map fst gs"
  by (simp add: fst_reduce)

lemma values_reduce: "map snd (map reduce_function gs) = map (\<lambda>e. sum_list (snd e)) gs"
  by (simp add: snd_reduce)

lemma map_of_reduce: "map_of (map reduce_function gs) k = map_option sum_list (map_of gs k)"
  by (induction gs) (auto simp: reduce_function_def)

lemma keys_mapped: "fst ` set (map map_function ws) = set ws"
  by (induction ws) (auto simp: map_function_def)

lemma pipeline_dict:
  "dict (map reduce_function (shuffle_function xs)) = map reduce_function (shuffle_function xs)"
proof (rule dict_distinct)
  show "distinct (map fst (map reduce_function (shuffle_function xs)))"
    unfolding keys_reduce by (rule distinct_shuffle_function)
qed

lemma map_reduce_eq:
  "map_reduce text search_words =
     map reduce_function (shuffle_function (map map_function (filtered_words text search_words)))"
  by (simp add: map_reduce_def pipeline_dict)

lemma keys_map_reduce:
  "set (keys (map_reduce text search_words)) = set (filtered_words text search_words)"
  unfolding map_reduce_eq keys_def keys_reduce keys_shuffle_function by (rule keys_mapped)

lemma distinct_keys_map_reduce: "distinct (keys (map_reduce text search_words))"
  unfolding map_reduce_eq keys_def keys_reduce by (rule distinct_shuffle_function)

lemma count_mapped:
  "sum_list (map snd (filter (\<lambda>p. fst p = w) (map map_function ws))) = int (count_list ws w)"
  by (induction ws) (auto simp: map_function_def)

lemma map_of_map_reduce:
  "map_of (map_reduce text search_words) w =
     (if w \<in> set (filtered_words text search_words)
      then Some (int (count_list (filtered_words text search_words) w)) else None)"
  unfolding map_reduce_eq map_of_reduce map_of_shuffle_function keys_mapped count_mapped [symmetric]
  by simp

lemmas eval_defs = str_def remove_punctuation_def punctuation_def isspace_def whitespace_def
  shuffle_function_def shuffle_step_def getitem_default_def dict_def map_reduce_def
  filtered_words_def map_function_def reduce_function_def keys_def values_of_def

lemma sum_mapped: "sum_list (map snd (map map_function ws)) = int (length ws)"
  by (induction ws) (simp_all add: map_function_def)

lemma filtered_words_unfiltered:
  "search_words = None \<or> search_words = Some [] \<Longrightarrow>
     filtered_words text search_words = split (remove_punctuation text)"
  by (auto simp: filtered_words_def)

lemma filtered_words_filtered:
  "V \<noteq> [] \<Longrightarrow>
     filtered_words text (Some V) = [w \<leftarrow> split (remove_punctuation text). w \<in> set V]"
  by (simp add: filtered_words_def)

lemma sum_values_map_reduce:
  "sum_list (values_of (map_reduce text search_words)) =
     int (length (filtered_words text search_words))"
proof -
  have "sum_list (values_of (map_reduce text search_words)) =
          sum_list (map snd (map map_function (filtered_words text search_words)))"
    unfolding map_reduce_eq values_of_def values_reduce by (rule grouped_total_shuffle)
  also have "\<dots> = int (length (filtered_words text search_words))"
    by (rule sum_mapped)
  finally show ?thesis .
qed

lemma entry_map_reduce:
  assumes "w \<in> set (filtered_words text search_words)"
  shows "\<exists>n. (w, n) \<in> set (map_reduce text search_words) \<and> 1 \<le> n"
proof -
  from assms have "map_of (map_reduce text search_words) w =
               Some (int (count_list (filtered_words text search_words) w))"
    by (simp add: map_of_map_reduce)
  then have "(w, int (count_list (filtered_words text search_words) w))
               \<in> set (map_reduce text search_words)"
    by (rule map_of_SomeD)
  moreover from assms have "count_list (filtered_words text search_words) w \<noteq> 0"
    by (simp add: count_list_0_iff)
  ultimately show ?thesis
    by (intro exI [of _ "int (count_list (filtered_words text search_words) w)"]) simp
qed

section \<open>Properties of \<open>map_reduce\<close>\<close>

text \<open>
  C1 (count conservation), as stated: for every text and every optional vocabulary the
  values of the table add up to the number of tokens of the filtered sequence \<open>T\<close>, the
  punctuation-stripped, whitespace-split words that are in the vocabulary when one is
  given.  It fails for the empty vocabulary: \<open>if search_words:\<close> is false for an empty
  list, so on \<open>a b a\<close> all three words are counted while \<open>T\<close> is empty.
\<close>

theorem count_conservation_counterexample:
  "sum_list (values_of (map_reduce (str ''a b a'') (Some []))) \<noteq>
     int (length [w \<leftarrow> split (remove_punctuation (str ''a b a'')). w \<in> set []])"
  by (simp add: eval_defs)

text \<open>
  C1 as amended: for every text, the values of the table add up to the number of
  punctuation-stripped, whitespace-split words when no vocabulary or an empty one is
  given, and to the number of those words that are entries of the vocabulary when a
  non-empty one is given.
\<close>

theorem count_conservation:
  "(search_words = None \<or> search_words = Some [] \<longrightarrow>
      sum_list (values_of (map_reduce text search_words)) =
        int (length (split (remove_punctuation text)))) \<and>
   (V \<noteq> [] \<longrightarrow>
      sum_list (values_of (map_reduce text (Some V))) =
        int (length [w \<leftarrow> split (remove_punctuation text). w \<in> set V]))"
  by (simp add: sum_values_map_reduce filtered_words_unfiltered filtered_words_filtered)

theorem count_conservation_witness:
  "sum_list (values_of (map_reduce (str ''a b a'') None)) = 3 \<and>
   length (split (remove_punctuation (str ''a b a''))) = 3 \<and>
   [str ''fox''] \<noteq> [] \<and>
   sum_list (values_of (map_reduce (str ''the fox, the Fox fox'') (Some [str ''fox'']))) = 2 \<and>
   length [w \<leftarrow> split (remove_punctuation (str ''the fox, the Fox fox'')). w \<in> set [str ''fox'']] = 2 \<and>
   length (split (remove_punctuation (str ''the fox, the Fox fox''))) = 5"
proof -
  have 1: "length (split (remove_punctuation (str ''a b a''))) = 3"
    by (simp add: eval_defs)
  have 2: "length [w \<leftarrow> split (remove_punctuation (str ''the fox, the Fox fox'')).
                    w \<in> set [str ''fox'']] = 2"
    by (simp add: eval_defs)
  have 3: "length (split (remove_punctuation (str ''the fox, the Fox fox''))) = 5"
    by (simp add: eval_defs)
  from count_conservation [of None "str ''a b a''" "[str ''fox'']"] 1
  have 4: "sum_list (values_of (map_reduce (str ''a b a'') None)) = 3" by simp
  from count_conservation [of None "str ''the fox, the Fox fox''" "[str ''fox'']"] 2
  have 5: "sum_list (values_of (map_reduce (str ''the fox, the Fox fox'') (Some [str ''fox'']))) = 2"
    by simp
  from 1 2 3 4 5 show ?thesis by simp
qed

text \<open>
  C2 (key completeness), as stated: every token of the filtered sequence \<open>T\<close> is a key
  of the table with a count of at least one, and every key of the table occurs in \<open>T\<close>.
  It fails for the empty vocabulary: on \<open>a\<close> the word \<open>a\<close> is a key of the table while
  \<open>T\<close>, the words that are in the empty vocabulary, is empty.
\<close>

theorem key_completeness_counterexample:
  "str ''a'' \<in> set (keys (map_reduce (str ''a'') (Some []))) \<and>
   str ''a'' \<notin> set [w \<leftarrow> split (remove_punctuation (str ''a'')). w \<in> set []]"
  by (simp add: eval_defs)

text \<open>
  C2 as amended: when no vocabulary or an empty one is given, every
  punctuation-stripped, whitespace-split word of the text is a key of the table with a
  count of at least one and every key is such a word; when a non-empty vocabulary is
  given, the same holds of the words that are entries of the vocabulary.
\<close>

theorem key_completeness:
  "(search_words = None \<or> search_words = Some [] \<longrightarrow>
      (\<forall>w \<in> set (split (remove_punctuation text)).
          \<exists>n. (w, n) \<in> set (map_reduce text search_words) \<and> 1 \<le> n) \<and>
      (\<forall>k \<in> set (keys (map_reduce text search_words)).
          k \<in> set (split (remove_punctuation text)))) \<and>
   (V \<noteq> [] \<longrightarrow>
      (\<forall>w \<in> set [w \<leftarrow> split (remove_punctuation text). w \<in> set V].
          \<exists>n. (w, n) \<in> set (map_reduce text (Some V)) \<and> 1 \<le> n) \<and>
      (\<forall>k \<in> set (keys (map_reduce text (Some V))).
          k \<in> set [w \<leftarrow> split (remove_punctuation text). w \<in> set V]))"
proof (intro conjI impI ballI)
  fix w
  assume sw: "search_words = None \<or> search_words = Some []"
    and "w \<in> set (split (remove_punctuation text))"
  then have "w \<in> set (filtered_words text search_words)"
    by (simp only: filtered_words_unfiltered)
  then show "\<exists>n. (w, n) \<in> set (map_reduce text search_words) \<and> 1 \<le> n"
    by (rule entry_map_reduce)
next
  fix k
  assume sw: "search_words = None \<or> search_words = Some []"
    and "k \<in> set (keys (map_reduce text search_words))"
  then show "k \<in> set (split (remove_punctuation text))"
    by (simp only: keys_map_reduce filtered_words_unfiltered)
next
  fix w
  assume V: "V \<noteq> []"
    and "w \<in> set [w \<leftarrow> split (remove_punctuation text). w \<in> set V]"
  then have "w \<in> set (filtered_words text (Some V))"
    by (simp add: filtered_words_filtered)
  then show "\<exists>n. (w, n) \<in> set (map_reduce text (Some V)) \<and> 1 \<le> n"
    by (rule entry_map_reduce)
next
  fix k
  assume V: "V \<noteq> []"
    and "k \<in> set (keys (map_reduce text (Some V)))"
  then show "k \<in> set [w \<leftarrow> split (remove_punctuation text). w \<in> set V]"
    by (simp add: keys_map_reduce filtered_words_filtered)
qed

theorem key_completeness_witness:
  "str ''b'' \<in> set (split (remove_punctuation (str ''a, b. a! b?''))) \<and>
   (\<exists>n. (str ''b'', n) \<in> set (map_reduce (str ''a, b. a! b?'') None) \<and> 1 \<le> n) \<and>
   str ''a'' \<in> set (keys (map_reduce (str ''a, b. a! b?'') None)) \<and>
   [str ''b'', str ''c''] \<noteq> [] \<and>
   str ''b'' \<in> set [w \<leftarrow> split (remove_punctuation (str ''a, b. a! b?'')).
                       w \<in> set [str ''b'', str ''c'']] \<and>
   (\<exists>n. (str ''b'', n) \<in> set (map_reduce (str ''a, b. a! b?'') (Some [str ''b'', str ''c''])) \<and>
        1 \<le> n) \<and>
   keys (map_reduce (str ''a, b. a! b?'') (Some [str ''b'', str ''c''])) = [str ''b'']"
proof -
  have b: "str ''b'' \<in> set (split (remove_punctuation (str ''a, b. a! b?'')))"
    by (simp add: eval_defs)
  have a: "str ''a'' \<in> set (keys (map_reduce (str ''a, b. a! b?'') None))"
    by (simp add: eval_defs)
  have bV: "str ''b'' \<in> set [w \<leftarrow> split (remove_punctuation (str ''a, b. a! b?'')).
                                w \<in> set [str ''b'', str ''c'']]"
    by (simp add: eval_defs)
  have k: "keys (map_reduce (str ''a, b. a! b?'') (Some [str ''b'', str ''c''])) = [str ''b'']"
    by (simp add: eval_defs)
  have V: "[str ''b'', str ''c''] \<noteq> []" by simp
  from key_completeness [of None "str ''a, b. a! b?''" "[str ''b'', str ''c'']"] a b bV k V
  show ?thesis by blast
qed

text \<open>
  C3 (vocabulary filter), as stated: for every provided vocabulary \<open>V\<close>, the empty one
  included, the keys of the table are the tokens of the text that are in \<open>V\<close>.  It
  fails for the empty \<open>V\<close>: \<open>if search_words:\<close> is false for an empty list, so no
  filter is applied and the token \<open>a\<close> stays a key.
\<close>

theorem vocabulary_filter_counterexample:
  "set (keys (map_reduce (str ''a'') (Some []))) \<noteq>
     set (split (remove_punctuation (str ''a''))) \<inter> set []"
  by (simp add: eval_defs)

text \<open>
  C3 as amended: for every text and every provided non-empty vocabulary \<open>V\<close>, the keys
  of the table are exactly the tokens of the punctuation-stripped, whitespace-split
  text that are equal to an entry of \<open>V\<close>.
\<close>

theorem vocabulary_filter:
  "V \<noteq> [] \<Longrightarrow>
     set (keys (map_reduce text (Some V))) = set (split (remove_punctuation text)) \<inter> set V"
  unfolding keys_map_reduce by (auto simp: filtered_words_def Let_def)

theorem vocabulary_filter_witness:
  "[str ''fox''] \<noteq> [] \<and>
   set (keys (map_reduce (str ''the quick fox jumps'') (Some [str ''fox'']))) =
     set (split (remove_punctuation (str ''the quick fox jumps''))) \<inter> set [str ''fox''] \<and>
   keys (map_reduce (str ''the quick fox jumps'') (Some [str ''fox''])) = [str ''fox'']"
proof -
  have "keys (map_reduce (str ''the quick fox jumps'') (Some [str ''fox''])) = [str ''fox'']"
    by (simp add: eval_defs)
  with vocabulary_filter [of "[str ''fox'']" "str ''the quick fox jumps''"] show ?thesis
    by simp
qed

text \<open>
  C5 (no case folding): the keys of the table are the tokens as they stand in the
  text, so tokens that differ only in letter case are different keys; on
  \<open>the Quick fox the FOX\<close> the table is \<open>the: 2, Quick: 1, fox: 1, FOX: 1\<close>.
\<close>

theorem no_case_folding:
  "set (keys (map_reduce text None)) = set (split (remove_punctuation text)) \<and>
   map_reduce (str ''the Quick fox the FOX'') None =
     [(str ''the'', 2), (str ''Quick'', 1), (str ''fox'', 1), (str ''FOX'', 1)]"
proof
  show "set (keys (map_reduce text None)) = set (split (remove_punctuation text))"
    unfolding keys_map_reduce by (simp add: filtered_words_def)
  show "map_reduce (str ''the Quick fox the FOX'') None =
     [(str ''the'', 2), (str ''Quick'', 1), (str ''fox'', 1), (str ''FOX'', 1)]"
    by (simp add: eval_defs)
qed

text \<open>
  C6 (punctuation stripping): the text that is split is the input without its
  punctuation characters, so no key of the table contains one; on \<open>a, b. a! b?\<close>
  the table is \<open>a: 2, b: 2\<close>.
\<close>

theorem punctuation_stripping:
  "filtered_words text None = split (filter (\<lambda>c. c \<notin> set punctuation) text) \<and>
   (\<forall>k \<in> set (keys (map_reduce text search_words)). \<forall>c \<in> set k. c \<notin> set punctuation) \<and>
   map_reduce (str ''a, b. a! b?'') None = [(str ''a'', 2), (str ''b'', 2)]"
proof (intro conjI ballI)
  show "filtered_words text None = split (filter (\<lambda>c. c \<notin> set punctuation) text)"
    by (simp add: filtered_words_def remove_punctuation_def)
  show "map_reduce (str ''a, b. a! b?'') None = [(str ''a'', 2), (str ''b'', 2)]"
    by (simp add: eval_defs)
next
  fix k c assume "k \<in> set (keys (map_reduce text search_words))" and c: "c \<in> set k"
  then have "k \<in> set (filtered_words text search_words)"
    by (simp only: keys_map_reduce)
  then have "set k \<inter> set punctuation = {}"
    by (rule filtered_words_punctuation_free)
  with c show "c \<notin> set punctuation" by blast
qed

theorem punctuation_stripping_witness:
  "str ''x.y'' \<in> set (split (str ''a,b x.y'')) \<and>
   str ''xy'' \<in> set (keys (map_reduce (str ''a,b x.y'') None)) \<and>
   set (str ''xy'') \<inter> set punctuation = {}"
proof -
  have "str ''x.y'' \<in> set (split (str ''a,b x.y''))"
    by (simp add: eval_defs)
  moreover have "str ''xy'' \<in> set (keys (map_reduce (str ''a,b x.y'') None))"
    by (simp add: eval_defs)
  ultimately show ?thesis
    using punctuation_stripping [of "str ''a,b x.y''" None] by blast
qed

text \<open>
  C7 (empty input is success), as stated: on the empty text, and on every input whose
  tokens are all removed by the vocabulary filter, \<open>map_reduce\<close> returns the empty
  table.  It fails for the empty vocabulary: no word of \<open>a\<close> is in it, yet
  \<open>if search_words:\<close> is false for an empty list and the table holds \<open>a\<close>.
\<close>

theorem empty_input_counterexample:
  "[w \<leftarrow> split (remove_punctuation (str ''a'')). w \<in> set []] = [] \<and>
   map_reduce (str ''a'') (Some []) \<noteq> []"
  by (simp add: eval_defs)

text \<open>
  C7 as amended: \<open>map_reduce\<close> has no failing branch; it returns the empty table on the
  empty text, on every text without a word, and on every input of which no word is an
  entry of a non-empty vocabulary.
\<close>

theorem empty_input:
  "map_reduce [] search_words = [] \<and>
   (split (remove_punctuation text) = [] \<longrightarrow> map_reduce text search_words = []) \<and>
   (V \<noteq> [] \<and> [w \<leftarrow> split (remove_punctuation text). w \<in> set V] = [] \<longrightarrow>
      map_reduce text (Some V) = [])"
proof (intro conjI impI)
  show "map_reduce [] search_words = []"
    by (simp add: map_reduce_eq filtered_words_def remove_punctuation_def shuffle_function_def
          split: option.splits)
  show "map_reduce text search_words = []" if "split (remove_punctuation text) = []"
  proof -
    from that have "filtered_words text search_words = []"
      by (simp add: filtered_words_def split: option.splits)
    then show ?thesis by (simp add: map_reduce_eq shuffle_function_def)
  qed
  show "map_reduce text (Some V) = []"
    if "V \<noteq> [] \<and> [w \<leftarrow> split (remove_punctuation text). w \<in> set V] = []"
  proof -
    from that have "filtered_words text (Some V) = []"
      by (simp add: filtered_words_filtered)
    then show ?thesis by (simp add: map_reduce_eq shuffle_function_def)
  qed
qed

theorem empty_input_witness:
  "[str ''fox''] \<noteq> [] \<and>
   [w \<leftarrow> split (remove_punctuation (str ''the quick, brown'')). w \<in> set [str ''fox'']] = [] \<and>
   split (remove_punctuation (str ''the quick, brown'')) \<noteq> [] \<and>
   map_reduce (str ''the quick, brown'') (Some [str ''fox'']) = [] \<and>
   split (remove_punctuation (str '' ., !'')) = [] \<and>
   map_reduce (str '' ., !'') None = []"
proof -
  have 1: "[w \<leftarrow> split (remove_punctuation (str ''the quick, brown'')).
             w \<in> set [str ''fox'']] = []"
    by (simp add: eval_defs)
  have 2: "split (remove_punctuation (str ''the quick, brown'')) \<noteq> []"
    by (simp add: eval_defs)
  have 3: "split (remove_punctuation (str '' ., !'')) = []"
    by (simp add: eval_defs)
  have V: "[str ''fox''] \<noteq> []" by simp
  from empty_input [of "Some [str ''fox'']" "str ''the quick, brown''" "[str ''fox'']"] 1 V
  have 4: "map_reduce (str ''the quick, brown'') (Some [str ''fox'']) = []" by blast
  from empty_input [of None "str '' ., !''" "[str ''fox'']"] 3
  have 5: "map_reduce (str '' ., !'') None = []" by blast
  from 1 2 3 4 5 V show ?thesis by blast
qed

text \<open>
  C8 (well-formed table): the keys of the returned table are pairwise distinct, every
  key is a non-empty string and every value is at least one.
\<close>

theorem table_well_formed:
  "distinct (keys (map_reduce text search_words)) \<and>
   (\<forall>(k, v) \<in> set (map_reduce text search_words). k \<noteq> [] \<and> 1 \<le> v)"
proof (intro conjI ballI)
  show "distinct (keys (map_reduce text search_words))"
    by (rule distinct_keys_map_reduce)
next
  fix e assume e: "e \<in> set (map_reduce text search_words)"
  obtain k v where kv: "e = (k, v)" by (cases e)
  from e kv have "k \<in> set (keys (map_reduce text search_words))"
    by (force simp: keys_def)
  then have k: "k \<in> set (filtered_words text search_words)"
    by (simp only: keys_map_reduce)
  from e kv distinct_keys_map_reduce [where search_words = search_words]
  have "map_of (map_reduce text search_words) k = Some v"
    by (simp add: keys_def)
  with k have "v = int (count_list (filtered_words text search_words) k)"
    by (simp add: map_of_map_reduce)
  moreover from k have "count_list (filtered_words text search_words) k \<noteq> 0"
    by (simp add: count_list_0_iff)
  ultimately have "1 \<le> v" by simp
  with k kv show "case e of (k, v) \<Rightarrow> k \<noteq> [] \<and> 1 \<le> v"
    by (simp add: filtered_words_nonempty)
qed

theorem table_well_formed_witness:
  "(str ''a'', 2) \<in> set (map_reduce (str ''a, b. a! b?'') None) \<and>
   distinct (keys (map_reduce (str ''a, b. a! b?'') None)) \<and>
   str ''a'' \<noteq> [] \<and> (1::int) \<le> 2"
proof -
  have "(str ''a'', 2) \<in> set (map_reduce (str ''a, b. a! b?'') None)"
    by (simp add: eval_defs)
  then show ?thesis
    using table_well_formed [of "str ''a, b. a! b?''" None] by (simp add: str_def)
qed

text \<open>
  C10 (empty vocabulary): with the empty list as \<open>search_words\<close> the table is the one
  returned without \<open>search_words\<close>: an empty vocabulary is no filter.
\<close>

theorem empty_vocabulary_is_no_filter:
  "map_reduce text (Some []) = map_reduce text None"
  by (simp add: map_reduce_def filtered_words_def)

section \<open>Order independence\<close>

lemma map_of_pipeline:
  "map_of (dict (map reduce_function (shuffle_function xs))) k =
     (if k \<in> fst ` set xs then Some (sum_list (map snd (filter (\<lambda>p. fst p = k) xs)))
      else None)"
  unfolding pipeline_dict map_of_reduce map_of_shuffle_function by simp

lemma sum_group_mset:
  assumes "mset ys = mset (xs :: ('k \<times> int) list)"
  shows "sum_list (map snd (filter P ys)) = sum_list (map snd (filter P xs))"
proof -
  from assms have "mset (map snd (filter P ys)) = mset (map snd (filter P xs))"
    by (simp only: mset_map mset_filter)
  then have "sum_mset (mset (map snd (filter P ys))) = sum_mset (mset (map snd (filter P xs)))"
    by (rule arg_cong)
  then show ?thesis by (simp only: sum_mset_sum_list)
qed

lemma pipeline_permuted_pairs:
  assumes "mset ys = mset (xs :: ('k \<times> int) list)"
  shows "map_of (dict (map reduce_function (shuffle_function ys))) =
         map_of (dict (map reduce_function (shuffle_function xs)))"
proof
  fix k
  from assms have "set ys = set xs" by (rule mset_eq_setD)
  with sum_group_mset [OF assms]
  show "map_of (dict (map reduce_function (shuffle_function ys))) k =
        map_of (dict (map reduce_function (shuffle_function xs))) k"
    by (simp add: map_of_pipeline)
qed

lemma pipeline_permuted_groups:
  assumes "mset gs = mset (shuffle_function ys)"
  shows "map_of (dict (map reduce_function gs)) =
         map_of (dict (map reduce_function (shuffle_function ys)))"
proof -
  from assms have m: "mset (map fst gs) = mset (map fst (shuffle_function ys))"
    by (simp only: mset_map)
  have dg: "distinct (map fst gs)"
    using mset_eq_imp_distinct_iff [OF m] distinct_shuffle_function [of ys] by blast
  then have d1: "distinct (map fst (map reduce_function gs))"
    unfolding keys_reduce .
  have d2: "distinct (map fst (map reduce_function (shuffle_function ys)))"
    unfolding keys_reduce by (rule distinct_shuffle_function)
  from assms have "set gs = set (shuffle_function ys)" by (rule mset_eq_setD)
  then have "set (map reduce_function gs) = set (map reduce_function (shuffle_function ys))"
    by simp
  with d1 d2 have "map_of (map reduce_function gs) =
                   map_of (map reduce_function (shuffle_function ys))"
    by (simp add: map_of_inject_set)
  with d1 show ?thesis by (simp add: dict_distinct pipeline_dict)
qed

text \<open>
  C4 (order independence): when the mapped pairs \<open>xs\<close> are fed to \<open>shuffle_function\<close>
  in any other order \<open>ys\<close>, and the grouped entries are fed to the reduce step in any
  other order \<open>gs\<close>, the resulting table is the same mapping from token to count.
\<close>

theorem order_independence:
  assumes "mset ys = mset (xs :: ('k \<times> int) list)"
    and "mset gs = mset (shuffle_function ys)"
  shows "map_of (dict (map reduce_function gs)) =
         map_of (dict (map reduce_function (shuffle_function xs)))"
proof -
  from assms(2) have "map_of (dict (map reduce_function gs)) =
                      map_of (dict (map reduce_function (shuffle_function ys)))"
    by (rule pipeline_permuted_groups)
  also from assms(1) have "\<dots> = map_of (dict (map reduce_function (shuffle_function xs)))"
    by (rule pipeline_permuted_pairs)
  finally show ?thesis .
qed

theorem order_independence_witness:
  "mset [(str ''b'', 1), (str ''a'', 1), (str ''a'', 1)] =
     mset [(str ''a'', 1::int), (str ''b'', 1), (str ''a'', 1)] \<and>
   mset [(str ''a'', [1, 1]), (str ''b'', [1])] =
     mset (shuffle_function [(str ''b'', 1::int), (str ''a'', 1), (str ''a'', 1)]) \<and>
   [(str ''a'', [1, 1]), (str ''b'', [1])] \<noteq>
     shuffle_function [(str ''b'', 1::int), (str ''a'', 1), (str ''a'', 1)] \<and>
   map_of (dict (map reduce_function [(str ''a'', [1, 1]), (str ''b'', [1])])) =
     map_of (dict (map reduce_function
       (shuffle_function [(str ''a'', 1), (str ''b'', 1), (str ''a'', 1)])))"
proof -
  have 1: "mset [(str ''b'', 1), (str ''a'', 1), (str ''a'', 1)] =
     mset [(str ''a'', 1::int), (str ''b'', 1), (str ''a'', 1)]"
    by (simp add: str_def)
  have s: "shuffle_function [(str ''b'', 1::int), (str ''a'', 1), (str ''a'', 1)] =
             [(str ''b'', [1]), (str ''a'', [1, 1])]"
    by (simp add: eval_defs)
  have 2: "mset [(str ''a'', [1, 1]), (str ''b'', [1])] =
     mset (shuffle_function [(str ''b'', 1::int), (str ''a'', 1), (str ''a'', 1)])"
    unfolding s by (simp add: str_def)
  have 3: "[(str ''a'', [1, 1]), (str ''b'', [1])] \<noteq>
     shuffle_function [(str ''b'', 1::int), (str ''a'', 1), (str ''a'', 1)]"
    unfolding s by (simp add: str_def)
  from order_independence [OF 1 2] 1 2 3 show ?thesis by blast
qed

section \<open>Selection of the top words\<close>

lemma sorted_frequencies_descending:
  "sorted_wrt (\<lambda>x y. snd y \<le> snd x) (sorted_frequencies d)"
proof -
  have "sorted (map (\<lambda>x. - snd x) (sorted_frequencies d))"
    unfolding sorted_frequencies_def by (rule sorted_sort_key)
  then show ?thesis by (simp add: sorted_map)
qed

lemma slice_to_take: "\<exists>n. slice_to xs k = take n xs"
  by (auto simp: slice_to_def)

lemma take_closed_above:
  assumes "sorted_wrt R xs" and "x \<in> set (take n xs)" and "e \<in> set xs" and "\<not> R x e"
  shows "e \<in> set (take n xs)"
proof (rule ccontr)
  assume "e \<notin> set (take n xs)"
  moreover have "set xs = set (take n xs) \<union> set (drop n xs)"
    by (metis append_take_drop_id set_append)
  ultimately have e: "e \<in> set (drop n xs)" using assms(3) by blast
  from assms(1) have "sorted_wrt R (take n xs @ drop n xs)" by simp
  then have "\<forall>a \<in> set (take n xs). \<forall>b \<in> set (drop n xs). R a b"
    by (simp only: sorted_wrt_append) blast
  with assms(2) e have "R x e" by blast
  with assms(4) show False by contradiction
qed

lemma comprehension_fst: "[word. (word, frequency) \<leftarrow> xs] = map fst xs"
  by (induction xs) auto

lemma comprehension_snd: "[frequency. (word, frequency) \<leftarrow> xs] = map snd xs"
  by (induction xs) auto

text \<open>A negative \<open>num_top_words\<close> leaves out the last entries of the sorted list.\<close>

lemma top_entries_negative:
  "top_entries [(str ''a'', 1), (str ''b'', 3), (str ''c'', 2)] (- 1) = [(str ''b'', 3), (str ''c'', 2)]"
  by (simp add: top_entries_def slice_to_def sorted_frequencies_def numeral_2_eq_2)

text \<open>
  C9 (top-K extraction): the entries of the table are sorted by descending count and
  the slice \<open>[:K]\<close> of the sorted list is taken, which is its first \<open>K\<close> entries for
  \<open>K \<ge> 0\<close>.  For every integer \<open>K\<close> the extracted list is non-increasing in count,
  consists of entries of the table, and holds every entry of the table whose count is
  greater than the count of some extracted entry.
\<close>

theorem top_k_extraction:
  "mset (sorted_frequencies d) = mset d \<and>
   sorted_wrt (\<lambda>x y. snd y \<le> snd x) (sorted_frequencies d) \<and>
   (0 \<le> K \<longrightarrow> top_entries d K = take (nat K) (sorted_frequencies d)) \<and>
   top_words d K = map fst (top_entries d K) \<and>
   top_frequencies d K = map snd (top_entries d K) \<and>
   sorted_wrt (\<lambda>x y. snd y \<le> snd x) (top_entries d K) \<and>
   set (top_entries d K) \<subseteq> set d \<and>
   (\<forall>e \<in> set d. \<forall>x \<in> set (top_entries d K). snd x < snd e \<longrightarrow> e \<in> set (top_entries d K))"
proof -
  obtain n where n: "top_entries d K = take n (sorted_frequencies d)"
    unfolding top_entries_def using slice_to_take by blast
  have s: "set (sorted_frequencies d) = set d"
    by (simp add: sorted_frequencies_def)
  have 1: "mset (sorted_frequencies d) = mset d"
    by (simp add: sorted_frequencies_def)
  have 2: "0 \<le> K \<longrightarrow> top_entries d K = take (nat K) (sorted_frequencies d)"
    by (simp add: top_entries_def slice_to_def)
  have 3: "top_words d K = map fst (top_entries d K)"
    by (simp only: top_words_def comprehension_fst)
  have 4: "top_frequencies d K = map snd (top_entries d K)"
    by (simp only: top_frequencies_def comprehension_snd)
  have 5: "sorted_wrt (\<lambda>x y. snd y \<le> snd x) (top_entries d K)"
    unfolding n using sorted_frequencies_descending by (rule sorted_wrt_take)
  have 6: "set (top_entries d K) \<subseteq> set d"
    unfolding n using set_take_subset [of n "sorted_frequencies d"] s by simp
  have 7: "\<forall>e \<in> set d. \<forall>x \<in> set (top_entries d K).
             snd x < snd e \<longrightarrow> e \<in> set (top_entries d K)"
  proof (intro ballI impI)
    fix e x
    assume "e \<in> set d" and x: "x \<in> set (top_entries d K)" and lt: "snd x < snd e"
    then have e: "e \<in> set (sorted_frequencies d)" by (simp only: s)
    from lt have "\<not> snd e \<le> snd x" by simp
    with sorted_frequencies_descending [of d] x e
    show "e \<in> set (top_entries d K)"
      unfolding n by (rule take_closed_above)
  qed
  from 1 sorted_frequencies_descending 2 3 4 5 6 7 show ?thesis by blast
qed

theorem top_k_extraction_witness:
  "(0::int) \<le> 2 \<and>
   top_entries [(str ''a'', 1), (str ''b'', 3), (str ''c'', 2)] 2 = [(str ''b'', 3), (str ''c'', 2)] \<and>
   (str ''b'', 3) \<in> set [(str ''a'', 1), (str ''b'', 3), (str ''c'', 2)] \<and>
   (str ''c'', 2) \<in> set (top_entries [(str ''a'', 1), (str ''b'', 3), (str ''c'', 2)] 2) \<and>
   snd (str ''c'', 2::int) < snd (str ''b'', 3::int) \<and>
   (str ''b'', 3) \<in> set (top_entries [(str ''a'', 1), (str ''b'', 3), (str ''c'', 2)] 2)"
proof -
  have t: "top_entries [(str ''a'', 1), (str ''b'', 3), (str ''c'', 2)] 2 =
             take (nat 2) (sorted_frequencies [(str ''a'', 1), (str ''b'', 3), (str ''c'', 2)])"
    using top_k_extraction [of "[(str ''a'', 1), (str ''b'', 3), (str ''c'', 2)]" 2] by simp
  have "sorted_frequencies [(str ''a'', 1), (str ''b'', 3), (str ''c'', 2)] =
          [(str ''b'', 3), (str ''c'', 2), (str ''a'', 1)]"
    by (simp add: sorted_frequencies_def)
  with t have "top_entries [(str ''a'', 1), (str ''b'', 3), (str ''c'', 2)] 2 =
                 [(str ''b'', 3), (str ''c'', 2)]"
    by (simp add: numeral_2_eq_2)
  then show ?thesis
    using top_k_extraction [of "[(str ''a'', 1), (str ''b'', 3), (str ''c'', 2)]" 2] by simp
qed

end
